theory Spec2Isabelle
  imports Main "HOL-Library.Word" "HOL-Library.Multiset"
begin

section \<open>The sparse column store of \<^verbatim>\<open>src/Vector.hh\<close>\<close>

text \<open>
  \<^verbatim>\<open>aleph::representations::Vector<IndexType = unsigned>\<close> is a column-major
  boundary matrix over the two-element field. The embedding fixes the index type to the
  template's default argument \<^verbatim>\<open>unsigned\<close>, a 32-bit machine integer. A member
  function that mutates the object takes the state and returns the state it leaves
  behind, paired with its outcome; a \<^verbatim>\<open>const\<close> member function returns its
  outcome only. The exception \<^verbatim>\<open>std::out_of_range\<close> of
  \<^verbatim>\<open>std::vector::at\<close> is the only error the class can signal.
\<close>

subsection \<open>Data\<close>

type_synonym Index = "32 word"

datatype error = OutOfRange

record Vector =
  m_data :: "Index list list"
  m_dimensions :: "Index list"
  m_isDualized :: bool

text \<open>
  The implicitly defined default constructor: both vectors empty, and the default member
  initialiser \<^verbatim>\<open>_isDualized = false\<close>.
\<close>

definition Vector_init :: Vector where
  "Vector_init = \<lparr>m_data = [], m_dimensions = [], m_isDualized = False\<rparr>"

subsection \<open>The standard-library operations the class calls\<close>

text \<open>\<^verbatim>\<open>std::vector::at\<close>: a bounds-checked read; the index is converted to \<^verbatim>\<open>size_t\<close>.\<close>

definition vector_at :: "'a list \<Rightarrow> Index \<Rightarrow> error + 'a" where
  "vector_at xs i = (if unat i < length xs then Inr (xs ! unat i) else Inl OutOfRange)"

text \<open>
  \<^verbatim>\<open>std::vector::resize(n)\<close>: the first \<open>n\<close> elements are kept, and
  value-initialised elements are appended when the vector was shorter.
\<close>

definition resize :: "nat \<Rightarrow> 'a \<Rightarrow> 'a list \<Rightarrow> 'a list" where
  "resize n d xs = take n xs @ replicate (n - length xs) d"

text \<open>
  \<^verbatim>\<open>std::set_symmetric_difference\<close> writing through a back inserter: one pass
  over both ranges, comparing the two front elements with \<open><\<close> only.
\<close>

fun set_symmetric_difference :: "Index list \<Rightarrow> Index list \<Rightarrow> Index list" where
  "set_symmetric_difference [] ys = ys"
| "set_symmetric_difference (x # xs) [] = x # xs"
| "set_symmetric_difference (x # xs) (y # ys) =
     (if x < y then x # set_symmetric_difference xs (y # ys)
      else if y < x then y # set_symmetric_difference (x # xs) ys
      else set_symmetric_difference xs ys)"

text \<open>
  An iterator range \<^verbatim>\<open>[begin, end)\<close>, passed by value to the member template
  \<^verbatim>\<open>setColumn<InputIterator>\<close>. The iterator category decides what a second
  reading of the range gives. Over a multi-pass range (forward iterators or stronger, such
  as the iterators of a container) every copy of \<^verbatim>\<open>begin\<close> traverses the same
  sequence again. Over a single-pass range (input iterators on a shared source, such as
  \<^verbatim>\<open>std::istream_iterator\<close>) the traversal of one copy consumes the source for all
  of them.
\<close>

datatype iterator_range = MultiPass "Index list" | SinglePass "Index list"

text \<open>The values that the first traversal of the range yields.\<close>

fun range_values :: "iterator_range \<Rightarrow> Index list" where
  "range_values (MultiPass xs) = xs"
| "range_values (SinglePass xs) = xs"

text \<open>
  \<^verbatim>\<open>begin == end\<close>, evaluated on the caller's iterators. A single-pass
  \<^verbatim>\<open>begin\<close> that was constructed on a non-empty source holds the element it read
  then and stays different from \<^verbatim>\<open>end\<close>, whatever happens to its copies.
\<close>

fun begin_equals_end :: "iterator_range \<Rightarrow> bool" where
  "begin_equals_end (MultiPass xs) = (xs = [])"
| "begin_equals_end (SinglePass xs) = (xs = [])"

text \<open>
  \<^verbatim>\<open>std::distance(begin, end)\<close>, evaluated after a copy of the range has been
  traversed to its end. A multi-pass range is counted again in full. For a single-pass
  range \<^verbatim>\<open>std::distance\<close> increments \<^verbatim>\<open>begin\<close> until it equals
  \<^verbatim>\<open>end\<close>: the first increment finds the source exhausted, so a non-empty range
  counts as one element.
\<close>

fun distance_after_traversal :: "iterator_range \<Rightarrow> int" where
  "distance_after_traversal (MultiPass xs) = int (length xs)"
| "distance_after_traversal (SinglePass xs) = (if xs = [] then 0 else 1)"

subsection \<open>Member functions\<close>

definition setNumColumns :: "Index \<Rightarrow> Vector \<Rightarrow> Vector" where
  "setNumColumns numColumns v =
     v\<lparr>m_data := resize (unat numColumns) [] (m_data v),
       m_dimensions := resize (unat numColumns) 0 (m_dimensions v)\<rparr>"

definition getNumColumns :: "Vector \<Rightarrow> Index" where
  "getNumColumns v = of_nat (length (m_data v))"

definition getMaximumIndex :: "Index \<Rightarrow> Vector \<Rightarrow> error + (Index \<times> bool)" where
  "getMaximumIndex column v =
     (case vector_at (m_data v) column of
        Inl e \<Rightarrow> Inl e
      | Inr col \<Rightarrow> if col = [] then Inr (0, False) else Inr (last col, True))"

definition addColumns :: "Index \<Rightarrow> Index \<Rightarrow> Vector \<Rightarrow> (error + unit) \<times> Vector" where
  "addColumns source target v =
     (case vector_at (m_data v) source of
        Inl e \<Rightarrow> (Inl e, v)
      | Inr sourceColumn \<Rightarrow>
          (case vector_at (m_data v) target of
             Inl e \<Rightarrow> (Inl e, v)
           | Inr targetColumn \<Rightarrow>
               (Inr (),
                v\<lparr>m_data := (m_data v)
                     [unat target := set_symmetric_difference sourceColumn targetColumn]\<rparr>)))"

text \<open>
  \<^verbatim>\<open>setColumn\<close> first hands copies of \<^verbatim>\<open>begin\<close> and \<^verbatim>\<open>end\<close> to
  \<^verbatim>\<open>std::vector::assign\<close>, which traverses the range, and sorts the column. Only
  then does it evaluate \<^verbatim>\<open>begin == end\<close> and \<^verbatim>\<open>std::distance(begin, end)\<close>
  on its own iterators, for the dimension tag. The column is in place before the dimension
  vector is accessed, so an exception of the second \<^verbatim>\<open>at\<close> would leave the new
  column behind. \<^verbatim>\<open>std::distance(begin, end) - 1\<close> is a signed difference,
  converted to \<^verbatim>\<open>Index\<close> by the \<^verbatim>\<open>static_cast\<close>.
\<close>

definition setColumn ::
    "Index \<Rightarrow> iterator_range \<Rightarrow> Vector \<Rightarrow> (error + unit) \<times> Vector" where
  "setColumn column r v =
     (case vector_at (m_data v) column of
        Inl e \<Rightarrow> (Inl e, v)
      | Inr _ \<Rightarrow>
          (let v1 = v\<lparr>m_data := (m_data v)[unat column := sort (range_values r)]\<rparr> in
           case vector_at (m_dimensions v1) column of
             Inl e \<Rightarrow> (Inl e, v1)
           | Inr _ \<Rightarrow>
               (Inr (),
                v1\<lparr>m_dimensions := (m_dimensions v1)
                      [unat column := (if begin_equals_end r then 0
                                       else word_of_int (distance_after_traversal r - 1))]\<rparr>)))"

definition getColumn :: "Index \<Rightarrow> Vector \<Rightarrow> error + Index list" where
  "getColumn column v = vector_at (m_data v) column"

definition clearColumn :: "Index \<Rightarrow> Vector \<Rightarrow> (error + unit) \<times> Vector" where
  "clearColumn column v =
     (case vector_at (m_data v) column of
        Inl e \<Rightarrow> (Inl e, v)
      | Inr _ \<Rightarrow> (Inr (), v\<lparr>m_data := (m_data v)[unat column := []]\<rparr>))"

definition getDimension :: "Index \<Rightarrow> Vector \<Rightarrow> error + Index" where
  "getDimension column v = vector_at (m_dimensions v) column"

text \<open>The overload without argument: the largest dimension tag, 0 for no columns.\<close>

definition getDimension_max :: "Vector \<Rightarrow> Index" where
  "getDimension_max v =
     (if m_dimensions v = [] then 0 else fold max (m_dimensions v) (hd (m_dimensions v)))"

definition setDualized :: "bool \<Rightarrow> Vector \<Rightarrow> Vector" where
  "setDualized value v = v\<lparr>m_isDualized := value\<rparr>"

definition isDualized :: "Vector \<Rightarrow> bool" where
  "isDualized v = m_isDualized v"

subsection \<open>The class invariant\<close>

text \<open>
  Both member vectors are only ever resized together, by \<^verbatim>\<open>setNumColumns\<close>, to a
  length that is the value of an \<^verbatim>\<open>Index\<close>. Every state that the public
  interface produces from a newly constructed object therefore has as many dimension tags
  as columns, and a column count that \<^verbatim>\<open>getNumColumns\<close> reports without
  truncation.
\<close>

definition Vector_inv :: "Vector \<Rightarrow> bool" where
  "Vector_inv v \<longleftrightarrow>
     length (m_dimensions v) = length (m_data v) \<and> length (m_data v) < 2 ^ 32"

text \<open>
  The states of a \<^verbatim>\<open>Vector\<close> that a program can hold: the constructed object, and
  whatever the mutating member functions make of a state it can hold, with any arguments
  and whether or not the call throws.
\<close>

inductive reachable :: "Vector \<Rightarrow> bool" where
  constructed: "reachable Vector_init"
| by_setNumColumns: "reachable v \<Longrightarrow> reachable (setNumColumns n v)"
| by_setColumn: "reachable v \<Longrightarrow> reachable (snd (setColumn c r v))"
| by_addColumns: "reachable v \<Longrightarrow> reachable (snd (addColumns s t v))"
| by_clearColumn: "reachable v \<Longrightarrow> reachable (snd (clearColumn c v))"
| by_setDualized: "reachable v \<Longrightarrow> reachable (setDualized b v)"

text \<open>
  The stored columns are in ascending order. \<^verbatim>\<open>getMaximumIndex\<close> reads the last
  entry of a column and \<^verbatim>\<open>std::set_symmetric_difference\<close> requires sorted ranges,
  so both rely on it.
\<close>

definition sortedColumns :: "Vector \<Rightarrow> bool" where
  "sortedColumns v \<longleftrightarrow> (\<forall>col\<in>set (m_data v). sorted col)"

section \<open>The column reduction engine\<close>

text \<open>
  The reduction loop and the extraction of persistence pairs are described in section 4.2
  of the specification; no source file at hand contains them. They are modelled here on
  top of the member functions above. Loop counters are natural numbers, converted to
  \<^verbatim>\<open>Index\<close> at each call of a member function.
\<close>

text \<open>
  Modelled from the spec: the test of step 1.b of the reduction loop, which is missing from
  the sources. Column \<open>k\<close> is non-empty and its pivot equals the pivot of the non-empty
  column \<open>j\<close>.
\<close>

definition samePivot :: "Vector \<Rightarrow> nat \<Rightarrow> nat \<Rightarrow> bool" where
  "samePivot v k j =
     (case getMaximumIndex (of_nat k) v of
        Inr (p, True) \<Rightarrow> getMaximumIndex (of_nat j) v = Inr (p, True)
      | _ \<Rightarrow> False)"

text \<open>
  Modelled from the spec: the search of step 1.b, missing from the sources: the columns
  \<open>0..j-1\<close> that are non-empty and share the pivot of column \<open>j\<close>. The specification
  leaves the lookup mechanism open, so the model keeps every match, in ascending order.
\<close>

definition pivotCandidates :: "Vector \<Rightarrow> nat \<Rightarrow> nat list" where
  "pivotCandidates v j = filter (\<lambda>k. samePivot v k j) [0..<j]"

text \<open>
  Modelled from the spec: a tie-breaking rule, which the specification says the result
  does not depend on. A rule selects the elimination partner among the matching columns.
  It sees the current matrix, the column under reduction and the matching columns, and
  may be any function that returns one of the columns it is offered.
\<close>

type_synonym tiebreak = "Vector \<Rightarrow> nat \<Rightarrow> nat list \<Rightarrow> nat"

definition validChoice :: "tiebreak \<Rightarrow> bool" where
  "validChoice pick \<longleftrightarrow> (\<forall>v j ks. ks \<noteq> [] \<longrightarrow> pick v j ks \<in> set ks)"

text \<open>
  Modelled from the spec: steps 1.a to 1.d for one column \<open>j\<close>, missing from the
  sources. While a strictly earlier column shares the pivot of column \<open>j\<close>, that column
  is added to column \<open>j\<close>. The loop need not terminate, so the result is optional; an
  exception of \<^verbatim>\<open>addColumns\<close> ends the reduction.
\<close>

partial_function (option) reduceColumn ::
    "tiebreak \<Rightarrow> nat \<Rightarrow> Vector \<Rightarrow> (error + Vector) option" where
  "reduceColumn pick j v =
     (if pivotCandidates v j = [] then Some (Inr v)
      else case addColumns (of_nat (pick v j (pivotCandidates v j))) (of_nat j) v of
             (Inl e, _) \<Rightarrow> Some (Inl e)
           | (Inr _, v') \<Rightarrow> reduceColumn pick j v')"

declare reduceColumn.simps [code]

text \<open>
  Modelled from the spec: step 1, the left-to-right sweep over the columns, missing from
  the sources.
\<close>

fun sweep :: "tiebreak \<Rightarrow> nat list \<Rightarrow> Vector \<Rightarrow> (error + Vector) option" where
  "sweep pick [] v = Some (Inr v)"
| "sweep pick (j # js) v =
     (case reduceColumn pick j v of
        None \<Rightarrow> None
      | Some (Inl e) \<Rightarrow> Some (Inl e)
      | Some (Inr v') \<Rightarrow> sweep pick js v')"

definition reduce :: "tiebreak \<Rightarrow> Vector \<Rightarrow> (error + Vector) option" where
  "reduce pick v = sweep pick [0..<unat (getNumColumns v)] v"

text \<open>
  Modelled from the spec: step 2 and the dualization rule, missing from the sources. A
  column \<open>j\<close> with pivot \<open>p\<close> yields the pair (birth \<open>p\<close>, death \<open>j\<close>, dimension of the
  simplex at \<open>p\<close>); birth and death are swapped when the matrix is dualized.
\<close>

definition pairOfColumn :: "Vector \<Rightarrow> nat \<Rightarrow> error + (Index \<times> Index \<times> Index) list" where
  "pairOfColumn v j =
     (case getMaximumIndex (of_nat j) v of
        Inl e \<Rightarrow> Inl e
      | Inr (p, False) \<Rightarrow> Inr []
      | Inr (p, True) \<Rightarrow>
          (case getDimension p v of
             Inl e \<Rightarrow> Inl e
           | Inr d \<Rightarrow> Inr [if isDualized v then (of_nat j, p, d) else (p, of_nat j, d)]))"

fun collectPairs :: "Vector \<Rightarrow> nat list \<Rightarrow> error + (Index \<times> Index \<times> Index) list" where
  "collectPairs v [] = Inr []"
| "collectPairs v (j # js) =
     (case pairOfColumn v j of
        Inl e \<Rightarrow> Inl e
      | Inr ps \<Rightarrow> (case collectPairs v js of Inl e \<Rightarrow> Inl e | Inr qs \<Rightarrow> Inr (ps @ qs)))"

definition persistencePairs ::
    "tiebreak \<Rightarrow> Vector \<Rightarrow> (error + (Index \<times> Index \<times> Index) list) option" where
  "persistencePairs pick v =
     (case reduce pick v of
        None \<Rightarrow> None
      | Some (Inl e) \<Rightarrow> Some (Inl e)
      | Some (Inr v') \<Rightarrow> Some (collectPairs v' [0..<unat (getNumColumns v')]))"

text \<open>
  Modelled from the spec: the reduced state of section 3, restricted to the columns
  before \<open>j\<close>: no two distinct non-empty columns among them have the same pivot.
\<close>

definition reducedPrefix :: "Vector \<Rightarrow> nat \<Rightarrow> bool" where
  "reducedPrefix v j \<longleftrightarrow> (\<forall>k1<j. \<forall>k2<j. samePivot v k1 k2 \<longrightarrow> k1 = k2)"

text \<open>
  Every column is sorted and free of duplicates, and the quantity that decreases with each
  addition to column \<open>j\<close> of such a matrix: one more than its pivot, or zero when the
  column is empty.
\<close>

definition strictColumns :: "Vector \<Rightarrow> bool" where
  "strictColumns v \<longleftrightarrow> (\<forall>col\<in>set (m_data v). sorted col \<and> distinct col)"

definition pivotMeasure :: "Vector \<Rightarrow> nat \<Rightarrow> nat" where
  "pivotMeasure v j = (if m_data v ! j = [] then 0 else Suc (unat (last (m_data v ! j))))"

text \<open>
  The boundary matrix of a filled triangle: three vertices, the edges \<open>{0,1}\<close>,
  \<open>{1,2}\<close>, \<open>{0,2}\<close> as columns 3 to 5, and the face as column 6.
\<close>

definition triangle :: Vector where
  "triangle =
     snd (setColumn 6 (MultiPass [3, 4, 5]) (snd (setColumn 5 (MultiPass [0, 2]) (snd (setColumn 4 (MultiPass [1, 2])
       (snd (setColumn 3 (MultiPass [0, 1]) (setNumColumns 7 Vector_init))))))))"

section \<open>Column indices and the invariant\<close>

lemma in_range_iff:
  "Vector_inv v \<Longrightarrow> (c < getNumColumns v) = (unat c < length (m_data v))"
  by (simp add: Vector_inv_def getNumColumns_def word_less_nat_alt unat_of_nat)

lemma out_of_range_iff:
  "Vector_inv v \<Longrightarrow> (getNumColumns v \<le> c) = (length (m_data v) \<le> unat c)"
  by (simp add: Vector_inv_def getNumColumns_def word_le_nat_alt unat_of_nat)

lemma in_range_dimensions:
  "Vector_inv v \<Longrightarrow> c < getNumColumns v \<Longrightarrow> unat c < length (m_dimensions v)"
  by (simp add: in_range_iff) (simp add: Vector_inv_def)

lemma unat_of_nat_Index: "n < 2 ^ 32 \<Longrightarrow> unat (of_nat n :: Index) = n"
  by (rule of_nat_inverse) simp_all

lemma unat_getNumColumns: "Vector_inv v \<Longrightarrow> unat (getNumColumns v) = length (m_data v)"
  by (simp add: getNumColumns_def Vector_inv_def unat_of_nat_Index)

lemma length_resize: "length (resize n d xs) = n"
  by (simp add: resize_def)

lemma resize_nth:
  "i < n \<Longrightarrow> resize n d xs ! i = (if i < length xs then xs ! i else d)"
  by (simp add: resize_def nth_append)

lemma vector_at_resize:
  "unat c < n \<Longrightarrow>
   vector_at (resize n d xs) c = (if unat c < length xs then vector_at xs c else Inr d)"
  by (simp add: vector_at_def length_resize resize_nth)

lemma Vector_inv_init: "Vector_inv Vector_init"
  by (simp add: Vector_inv_def Vector_init_def)

lemma Vector_inv_setNumColumns: "Vector_inv (setNumColumns n v)"
proof -
  have "unat n < 2 ^ LENGTH(32)" by (rule unsigned_less)
  then show ?thesis by (simp add: Vector_inv_def setNumColumns_def length_resize)
qed

lemma Vector_inv_setColumn: "Vector_inv v \<Longrightarrow> Vector_inv (snd (setColumn c r v))"
  by (simp add: Vector_inv_def setColumn_def vector_at_def Let_def)

lemma Vector_inv_addColumns: "Vector_inv v \<Longrightarrow> Vector_inv (snd (addColumns s t v))"
  by (simp add: Vector_inv_def addColumns_def vector_at_def)

lemma Vector_inv_clearColumn: "Vector_inv v \<Longrightarrow> Vector_inv (snd (clearColumn c v))"
  by (simp add: Vector_inv_def clearColumn_def vector_at_def)

lemma Vector_inv_setDualized: "Vector_inv v \<Longrightarrow> Vector_inv (setDualized b v)"
  by (simp add: Vector_inv_def setDualized_def)

section \<open>The symmetric-difference merge\<close>

lemma ssd_subset:
  "set (set_symmetric_difference xs ys) \<subseteq> set xs \<union> set ys"
  by (induction xs ys rule: set_symmetric_difference.induct) auto

lemma ssd_sorted:
  "sorted xs \<Longrightarrow> sorted ys \<Longrightarrow> sorted (set_symmetric_difference xs ys)"
proof (induction xs ys rule: set_symmetric_difference.induct)
  case (3 x xs y ys)
  have lo: "\<forall>a\<in>set xs. x \<le> a" "\<forall>b\<in>set ys. y \<le> b" and so: "sorted xs" "sorted ys"
    using 3 by simp_all
  show ?case
  proof (cases "x < y")
    case True
    have "\<forall>z\<in>set (set_symmetric_difference xs (y # ys)). x \<le> z"
      using ssd_subset [of xs "y # ys"] lo True by fastforce
    moreover have "sorted (set_symmetric_difference xs (y # ys))"
      using 3 True by simp
    ultimately show ?thesis using True by simp
  next
    case False
    show ?thesis
    proof (cases "y < x")
      case True
      have "\<forall>z\<in>set (set_symmetric_difference (x # xs) ys). y \<le> z"
        using ssd_subset [of "x # xs" ys] lo True by fastforce
      moreover have "sorted (set_symmetric_difference (x # xs) ys)"
        using 3 True \<open>\<not> x < y\<close> by simp
      ultimately show ?thesis using True \<open>\<not> x < y\<close> by simp
    next
      case False
      then show ?thesis using 3 \<open>\<not> x < y\<close> by simp
    qed
  qed
qed simp_all

lemma ssd_strict_sorted:
  "sorted_wrt (<) xs \<Longrightarrow> sorted_wrt (<) ys \<Longrightarrow>
   sorted_wrt (<) (set_symmetric_difference xs ys)"
proof (induction xs ys rule: set_symmetric_difference.induct)
  case (3 x xs y ys)
  have lo: "\<forall>a\<in>set xs. x < a" "\<forall>b\<in>set ys. y < b"
    using 3 by simp_all
  show ?case
  proof (cases "x < y")
    case True
    have "\<forall>z\<in>set (set_symmetric_difference xs (y # ys)). x < z"
      using ssd_subset [of xs "y # ys"] lo True by fastforce
    moreover have "sorted_wrt (<) (set_symmetric_difference xs (y # ys))"
      using 3 True by simp
    ultimately show ?thesis using True by simp
  next
    case False
    show ?thesis
    proof (cases "y < x")
      case True
      have "\<forall>z\<in>set (set_symmetric_difference (x # xs) ys). y < z"
        using ssd_subset [of "x # xs" ys] lo True by fastforce
      moreover have "sorted_wrt (<) (set_symmetric_difference (x # xs) ys)"
        using 3 True \<open>\<not> x < y\<close> by simp
      ultimately show ?thesis using True \<open>\<not> x < y\<close> by simp
    next
      case False
      then show ?thesis using 3 \<open>\<not> x < y\<close> by simp
    qed
  qed
qed simp_all

lemma ssd_set:
  "sorted_wrt (<) xs \<Longrightarrow> sorted_wrt (<) ys \<Longrightarrow>
   set (set_symmetric_difference xs ys) = (set xs - set ys) \<union> (set ys - set xs)"
proof (induction xs ys rule: set_symmetric_difference.induct)
  case (3 x xs y ys)
  have lo: "\<forall>a\<in>set xs. x < a" "\<forall>b\<in>set ys. y < b"
    using 3 by simp_all
  show ?case
  proof (cases "x < y")
    case True
    have nx: "x \<notin> set xs" "x \<notin> set (y # ys)"
      using lo True by auto
    have "set (set_symmetric_difference xs (y # ys))
            = (set xs - set (y # ys)) \<union> (set (y # ys) - set xs)"
      using 3 True by simp
    then have "set (set_symmetric_difference (x # xs) (y # ys))
            = insert x ((set xs - set (y # ys)) \<union> (set (y # ys) - set xs))"
      using True by simp
    also have "\<dots> = (set (x # xs) - set (y # ys)) \<union> (set (y # ys) - set (x # xs))"
      using nx by auto
    finally show ?thesis .
  next
    case False
    note nlt = this
    show ?thesis
    proof (cases "y < x")
      case True
      have ny: "y \<notin> set ys" "y \<notin> set (x # xs)"
        using lo True by auto
      have "set (set_symmetric_difference (x # xs) ys)
              = (set (x # xs) - set ys) \<union> (set ys - set (x # xs))"
        using 3 True nlt by simp
      then have "set (set_symmetric_difference (x # xs) (y # ys))
              = insert y ((set (x # xs) - set ys) \<union> (set ys - set (x # xs)))"
        using True nlt by simp
      also have "\<dots> = (set (x # xs) - set (y # ys)) \<union> (set (y # ys) - set (x # xs))"
        using ny by auto
      finally show ?thesis .
    next
      case False
      then have eq: "x = y" using nlt by simp
      have n: "y \<notin> set ys" "y \<notin> set xs"
        using lo eq by auto
      have "set (set_symmetric_difference xs ys) = (set xs - set ys) \<union> (set ys - set xs)"
        using 3 eq by simp
      then have "set (set_symmetric_difference (x # xs) (y # ys))
              = (set xs - set ys) \<union> (set ys - set xs)"
        using eq by simp
      also have "\<dots> = (set (x # xs) - set (y # ys)) \<union> (set (y # ys) - set (x # xs))"
        using n eq by auto
      finally show ?thesis .
    qed
  qed
qed auto

lemma ssd_involution:
  assumes "sorted_wrt (<) xs" "sorted_wrt (<) ys"
  shows "set_symmetric_difference xs (set_symmetric_difference xs ys) = ys"
proof -
  let ?d = "set_symmetric_difference xs ys"
  have d: "sorted_wrt (<) ?d" using assms by (rule ssd_strict_sorted)
  have "set (set_symmetric_difference xs ?d) = set ys"
    using assms d by (auto simp: ssd_set)
  moreover have "sorted_wrt (<) (set_symmetric_difference xs ?d)"
    using assms(1) d by (rule ssd_strict_sorted)
  ultimately show ?thesis
    using assms(2) by (simp add: strict_sorted_equal)
qed

lemma sorted_le_last: "sorted xs \<Longrightarrow> x \<in> set xs \<Longrightarrow> x \<le> last xs"
  by (induction xs) auto

lemma sorted_last_Max: "sorted xs \<Longrightarrow> xs \<noteq> [] \<Longrightarrow> last xs = Max (set xs)"
  by (rule sym, rule Max_eqI) (auto intro: sorted_le_last)

lemma ssd_common_last:
  assumes "sorted_wrt (<) A" "sorted_wrt (<) B" "A \<noteq> []" "B \<noteq> []" "last A = last B"
    and "set_symmetric_difference A B \<noteq> []"
  shows "last (set_symmetric_difference A B) < last B"
proof -
  let ?C = "set_symmetric_difference A B"
  have sA: "sorted A" and sB: "sorted B"
    using assms(1,2) by (simp_all add: strict_sorted_iff)
  have in_C: "last ?C \<in> set ?C" using assms(6) by simp
  then have mem: "last ?C \<in> (set A - set B) \<union> (set B - set A)"
    using ssd_set [OF assms(1,2)] by simp
  have "last B \<in> set A" "last B \<in> set B"
    using assms(3,4,5) last_in_set [of A] last_in_set [of B] by simp_all
  then have ne: "last ?C \<noteq> last B" using mem by auto
  have "last ?C \<le> last B"
    using mem sorted_le_last [OF sA] sorted_le_last [OF sB] assms(5) by auto
  then show ?thesis using ne by simp
qed

section \<open>Reachable states\<close>

lemma addColumns_in_range:
  assumes "unat s < length (m_data v)" "unat t < length (m_data v)"
  shows "addColumns s t v =
    (Inr (), v\<lparr>m_data := (m_data v)
       [unat t := set_symmetric_difference (m_data v ! unat s) (m_data v ! unat t)]\<rparr>)"
  using assms by (simp add: addColumns_def vector_at_def)

lemma addColumns_length:
  "length (m_data (snd (addColumns s t v))) = length (m_data v)"
  by (simp add: addColumns_def vector_at_def)

lemma sortedColumns_update:
  "sortedColumns v \<Longrightarrow> sorted col \<Longrightarrow> sortedColumns (v\<lparr>m_data := (m_data v)[i := col]\<rparr>)"
  using set_update_subset_insert [of "m_data v" i col]
  by (auto simp: sortedColumns_def)

lemma sortedColumns_setNumColumns: "sortedColumns v \<Longrightarrow> sortedColumns (setNumColumns n v)"
  by (auto simp: sortedColumns_def setNumColumns_def resize_def dest: in_set_takeD)

lemma sortedColumns_setColumn: "sortedColumns v \<Longrightarrow> sortedColumns (snd (setColumn c r v))"
proof -
  assume s: "sortedColumns v"
  have "sortedColumns (v\<lparr>m_data := (m_data v)[unat c := sort (range_values r)]\<rparr>)"
    using s by (rule sortedColumns_update) simp
  then show ?thesis
    using s by (simp add: setColumn_def vector_at_def Let_def sortedColumns_def)
qed

lemma sortedColumns_addColumns: "sortedColumns v \<Longrightarrow> sortedColumns (snd (addColumns s t v))"
proof (cases "unat s < length (m_data v) \<and> unat t < length (m_data v)")
  case True
  assume sc: "sortedColumns v"
  have "sorted (m_data v ! unat s)" "sorted (m_data v ! unat t)"
    using sc True by (simp_all add: sortedColumns_def)
  then have "sorted (set_symmetric_difference (m_data v ! unat s) (m_data v ! unat t))"
    by (rule ssd_sorted)
  then show ?thesis
    using sc True addColumns_in_range [of s v t] by (simp add: sortedColumns_update)
next
  case False
  assume "sortedColumns v"
  then show ?thesis using False by (auto simp: addColumns_def vector_at_def)
qed

lemma sortedColumns_clearColumn: "sortedColumns v \<Longrightarrow> sortedColumns (snd (clearColumn c v))"
proof -
  assume s: "sortedColumns v"
  have "sortedColumns (v\<lparr>m_data := (m_data v)[unat c := []]\<rparr>)"
    using s by (rule sortedColumns_update) simp
  then show ?thesis
    using s by (simp add: clearColumn_def vector_at_def)
qed

text \<open>
  Every state a program can hold satisfies the class invariant and has sorted columns.
\<close>

lemma reachable_invariant: "reachable v \<Longrightarrow> Vector_inv v \<and> sortedColumns v"
proof (induction rule: reachable.induct)
  case constructed
  show ?case using Vector_inv_init by (simp add: sortedColumns_def) (simp add: Vector_init_def)
next
  case (by_setNumColumns v n)
  then show ?case by (simp add: Vector_inv_setNumColumns sortedColumns_setNumColumns)
next
  case (by_setColumn v c r)
  then show ?case by (simp add: Vector_inv_setColumn sortedColumns_setColumn)
next
  case (by_addColumns v s t)
  then show ?case by (simp add: Vector_inv_addColumns sortedColumns_addColumns)
next
  case (by_clearColumn v c)
  then show ?case by (simp add: Vector_inv_clearColumn sortedColumns_clearColumn)
next
  case (by_setDualized v b)
  then show ?case using Vector_inv_setDualized [of v b] by (simp add: sortedColumns_def setDualized_def)
qed

section \<open>Assigning a column\<close>

text \<open>
  Claim C1, as the code has it. For every in-range column index \<open>c\<close> and every input
  range, \<^verbatim>\<open>setColumn\<close> succeeds and the stored column \<open>c\<close> is the input sequence
  sorted in ascending order: it has the same entries with the same multiplicities, so it
  is free of duplicates exactly when the input is. The member function sorts and nothing
  more.
\<close>

theorem setColumn_sorted_perm:
  assumes "Vector_inv v" "c < getNumColumns v"
  shows "fst (setColumn c r v) = Inr ()
    \<and> (\<exists>col. getColumn c (snd (setColumn c r v)) = Inr col
          \<and> sorted col \<and> mset col = mset (range_values r)
          \<and> (distinct col \<longleftrightarrow> distinct (range_values r)))"
proof -
  have r: "unat c < length (m_data v)" "unat c < length (m_dimensions v)"
    using assms by (simp_all add: in_range_iff in_range_dimensions)
  have "fst (setColumn c r v) = Inr ()"
    using r by (simp add: setColumn_def vector_at_def Let_def)
  moreover have "getColumn c (snd (setColumn c r v)) = Inr (sort (range_values r))"
    using r by (simp add: setColumn_def getColumn_def vector_at_def Let_def)
  ultimately show ?thesis by simp
qed

text \<open>
  The claim as stated also promises that duplicates are removed. A column assigned from
  \<open>3, 1, 3\<close> keeps both copies of 3.
\<close>

theorem setColumn_keeps_duplicates:
  "getColumn 0 (snd (setColumn 0 (MultiPass [3, 1, 3]) (setNumColumns 1 Vector_init))) = Inr [1, 3, 3]
   \<and> \<not> distinct [1, 3, 3 :: Index]"
  by code_simp

theorem setColumn_sorted_perm_witness:
  "Vector_inv (setNumColumns 1 Vector_init) \<and> 0 < getNumColumns (setNumColumns 1 Vector_init)
   \<and> fst (setColumn 0 (MultiPass [3, 1, 3]) (setNumColumns 1 Vector_init)) = Inr ()
   \<and> getColumn 0 (snd (setColumn 0 (MultiPass [3, 1, 3]) (setNumColumns 1 Vector_init))) = Inr [1, 3, 3]"
proof -
  let ?v = "setNumColumns 1 Vector_init"
  have i: "Vector_inv ?v" by (rule Vector_inv_setNumColumns)
  have c: "0 < getNumColumns ?v" by code_simp
  have g: "getColumn 0 (snd (setColumn 0 (MultiPass [3, 1, 3]) ?v)) = Inr [1, 3, 3]" by code_simp
  show ?thesis
    using i c g setColumn_sorted_perm [OF i c, of "MultiPass [3, 1, 3]"] by simp
qed

lemma len_pred: "xs \<noteq> [] \<Longrightarrow> length xs \<le> 2 ^ 32 \<Longrightarrow> length xs - 1 < (2::nat) ^ 32"
  by (cases xs) simp_all

lemma cast_pred2: "xs \<noteq> [] \<Longrightarrow> (of_nat (length xs) - 1 :: Index) = of_nat (length xs - Suc 0)"
  by (cases xs) simp_all

text \<open>
  The dimension tag after \<^verbatim>\<open>setColumn\<close> on a multi-pass range of \<open>k\<close> entries: 0
  when the range is empty, and otherwise \<open>k - 1\<close> converted to \<^verbatim>\<open>Index\<close>, whose
  unsigned reading is \<open>k - 1\<close> itself for every range of up to \<open>2^32\<close> entries.
\<close>

lemma setColumn_dimension_multi_pass:
  assumes "Vector_inv v" "c < getNumColumns v"
  shows "fst (setColumn c (MultiPass xs) v) = Inr ()
    \<and> (\<exists>d. getDimension c (snd (setColumn c (MultiPass xs) v)) = Inr d
          \<and> (xs = [] \<longrightarrow> d = 0)
          \<and> (xs \<noteq> [] \<longrightarrow> d = of_nat (length xs - 1))
          \<and> (xs \<noteq> [] \<longrightarrow> length xs \<le> 2 ^ 32 \<longrightarrow> unat d = length xs - 1))"
proof -
  have r: "unat c < length (m_data v)" "unat c < length (m_dimensions v)"
    using assms by (simp_all add: in_range_iff in_range_dimensions)
  have ok: "fst (setColumn c (MultiPass xs) v) = Inr ()"
    using r by (simp add: setColumn_def vector_at_def Let_def)
  show ?thesis
  proof (cases "xs = []")
    case True
    have "getDimension c (snd (setColumn c (MultiPass xs) v)) = Inr 0"
      using r True by (simp add: setColumn_def getDimension_def vector_at_def Let_def)
    then show ?thesis using ok True by simp
  next
    case False
    let ?d = "of_nat (length xs - 1) :: Index"
    have "getDimension c (snd (setColumn c (MultiPass xs) v)) = Inr ?d"
      using r False
      by (simp add: setColumn_def getDimension_def vector_at_def Let_def cast_pred2)
    moreover have "length xs \<le> 2 ^ 32 \<longrightarrow> unat ?d = length xs - 1"
      using False by (simp add: unat_of_nat_Index len_pred)
    ultimately show ?thesis using ok False by simp
  qed
qed

text \<open>
  The dimension tag after \<^verbatim>\<open>setColumn\<close> on a single-pass range: the column receives
  every entry, but the tag is 0 whatever the number of entries, since the range has been
  consumed when it is counted.
\<close>

lemma setColumn_dimension_single_pass:
  assumes "Vector_inv v" "c < getNumColumns v"
  shows "fst (setColumn c (SinglePass xs) v) = Inr ()
    \<and> getColumn c (snd (setColumn c (SinglePass xs) v)) = Inr (sort xs)
    \<and> getDimension c (snd (setColumn c (SinglePass xs) v)) = Inr 0"
proof -
  have r: "unat c < length (m_data v)" "unat c < length (m_dimensions v)"
    using assms by (simp_all add: in_range_iff in_range_dimensions)
  show ?thesis
    using r by (simp add: setColumn_def getColumn_def getDimension_def vector_at_def Let_def)
qed

text \<open>
  Claim C5. For every in-range column index \<open>c\<close>, \<^verbatim>\<open>setColumn\<close> sets the dimension
  tag of column \<open>c\<close> to 0 when the input sequence is empty and to \<open>k - 1\<close> when the
  input has \<open>k \<ge> 1\<close> entries, and \<^verbatim>\<open>getDimension(c)\<close> returns that tag. The comment
  in \<^verbatim>\<open>setColumn\<close> says the same: the dimension is the one indicated by the number
  of indices in the boundary. The code does so for a multi-pass range only. On a
  one-column matrix, the entries 3, 1, 3 read through a single-pass range are stored as
  the column 1, 3, 3, yet the tag is 0 and not 2; the same entries given as a multi-pass
  range get the tag 2.
\<close>

theorem setColumn_single_pass_tag:
  "getColumn 0 (snd (setColumn 0 (SinglePass [3, 1, 3]) (setNumColumns 1 Vector_init)))
     = Inr [1, 3, 3]
   \<and> getDimension 0 (snd (setColumn 0 (SinglePass [3, 1, 3]) (setNumColumns 1 Vector_init)))
     = Inr 0
   \<and> getDimension 0 (snd (setColumn 0 (MultiPass [3, 1, 3]) (setNumColumns 1 Vector_init)))
     = Inr 2
   \<and> length [3, 1, 3 :: Index] - 1 = 2"
  by code_simp

section \<open>The pivot query\<close>

text \<open>
  Claim C4. For every in-range column index \<open>c\<close> whose stored column is sorted in
  ascending order, \<^verbatim>\<open>getMaximumIndex(c)\<close> returns \<open>(0, false)\<close> when the column is
  empty and \<open>(p, true)\<close> otherwise, where \<open>p\<close> is the largest row index in the column.
\<close>

theorem getMaximumIndex_sorted:
  assumes "Vector_inv v" "c < getNumColumns v" "getColumn c v = Inr col" "sorted col"
  shows "getMaximumIndex c v = (if col = [] then Inr (0, False) else Inr (Max (set col), True))"
proof -
  have r: "unat c < length (m_data v)"
    using assms by (simp add: in_range_iff)
  have col: "m_data v ! unat c = col"
    using assms(3) r by (simp add: getColumn_def vector_at_def)
  have "col \<noteq> [] \<Longrightarrow> last col = Max (set col)"
    using assms(4) by (rule sorted_last_Max)
  then show ?thesis
    using r col by (simp add: getMaximumIndex_def vector_at_def)
qed

theorem getMaximumIndex_sorted_witness:
  "getMaximumIndex 0 (snd (setColumn 0 (MultiPass [3, 1, 3]) (setNumColumns 2 Vector_init))) = Inr (3, True)
   \<and> getMaximumIndex 1 (snd (setColumn 0 (MultiPass [3, 1, 3]) (setNumColumns 2 Vector_init))) = Inr (0, False)"
proof -
  let ?v = "snd (setColumn 0 (MultiPass [3, 1, 3]) (setNumColumns 2 Vector_init))"
  have i: "Vector_inv ?v"
    by (intro Vector_inv_setColumn Vector_inv_setNumColumns)
  have c: "0 < getNumColumns ?v" "1 < getNumColumns ?v" by code_simp+
  have g: "getColumn 0 ?v = Inr [1, 3, 3]" "getColumn 1 ?v = Inr []" by code_simp+
  have s: "sorted [1, 3, 3 :: Index]" "sorted ([] :: Index list)" by code_simp+
  have m: "Max (set [1, 3, 3 :: Index]) = 3" by (simp add: word_le_nat_alt max_def)
  show ?thesis
    using getMaximumIndex_sorted [OF i c(1) g(1) s(1)] getMaximumIndex_sorted [OF i c(2) g(2) s(2)] m
    by simp
qed

section \<open>Column addition\<close>

text \<open>
  Claim C2, as the code has it. For in-range column indices \<open>source\<close> and \<open>target\<close>
  whose columns are sorted and free of duplicates, \<^verbatim>\<open>addColumns\<close> succeeds and
  replaces the target column with the row indices that occur in exactly one of the two
  columns, sorted and free of duplicates. Every column other than the target, every
  dimension tag and the dualization flag stay as they were; the source column is among the
  unchanged columns when it is not the target itself.
\<close>

theorem addColumns_symmetric_difference:
  assumes "Vector_inv v" "s < getNumColumns v" "t < getNumColumns v"
    and "getColumn s v = Inr A" "getColumn t v = Inr B"
    and "sorted A" "distinct A" "sorted B" "distinct B"
  shows "fst (addColumns s t v) = Inr ()
    \<and> (\<exists>col. getColumn t (snd (addColumns s t v)) = Inr col
          \<and> set col = (set A - set B) \<union> (set B - set A) \<and> sorted col \<and> distinct col)
    \<and> (\<forall>c. c \<noteq> t \<longrightarrow> getColumn c (snd (addColumns s t v)) = getColumn c v)
    \<and> m_dimensions (snd (addColumns s t v)) = m_dimensions v
    \<and> isDualized (snd (addColumns s t v)) = isDualized v"
proof -
  have r: "unat s < length (m_data v)" "unat t < length (m_data v)"
    using assms(1-3) by (simp_all add: in_range_iff)
  have A: "m_data v ! unat s = A" and B: "m_data v ! unat t = B"
    using assms(4,5) r by (simp_all add: getColumn_def vector_at_def)
  have st: "sorted_wrt (<) A" "sorted_wrt (<) B"
    using assms(6-9) by (simp_all add: strict_sorted_iff)
  let ?col = "set_symmetric_difference A B"
  have e: "addColumns s t v = (Inr (), v\<lparr>m_data := (m_data v)[unat t := ?col]\<rparr>)"
    using addColumns_in_range [OF r] by (simp add: A B)
  have t: "getColumn t (snd (addColumns s t v)) = Inr ?col"
    using r by (simp add: e getColumn_def vector_at_def)
  have "sorted_wrt (<) ?col" using st by (rule ssd_strict_sorted)
  then have sd: "sorted ?col" "distinct ?col" by (simp_all add: strict_sorted_iff)
  have se: "set ?col = (set A - set B) \<union> (set B - set A)" using st by (rule ssd_set)
  have other: "getColumn c (snd (addColumns s t v)) = getColumn c v" if "c \<noteq> t" for c
  proof -
    have "unat c \<noteq> unat t" using that by (simp add: word_unat_eq_iff)
    then show ?thesis by (simp add: e getColumn_def vector_at_def)
  qed
  show ?thesis
    using t sd se other by (simp add: e isDualized_def)
qed

text \<open>
  The claim as stated fails in two ways. With \<open>source = target\<close> the column is added
  to itself and emptied, so the source column changes. With a source column \<open>1, 1\<close>,
  which \<^verbatim>\<open>setColumn\<close> stores as it is, and a target column \<open>1, 2\<close>, the merge cancels
  one copy of 1 only, and the result keeps the row index 1 although both columns hold it.
\<close>

theorem addColumns_counterexample:
  "getColumn 0 (snd (setColumn 0 (MultiPass [1]) (setNumColumns 1 Vector_init))) = Inr [1]
   \<and> getColumn 0 (snd (addColumns 0 0 (snd (setColumn 0 (MultiPass [1]) (setNumColumns 1 Vector_init)))))
       = Inr []
   \<and> getColumn 0 (snd (setColumn 1 (MultiPass [1, 2]) (snd (setColumn 0 (MultiPass [1, 1]) (setNumColumns 2 Vector_init)))))
       = Inr [1, 1]
   \<and> getColumn 1 (snd (setColumn 1 (MultiPass [1, 2]) (snd (setColumn 0 (MultiPass [1, 1]) (setNumColumns 2 Vector_init)))))
       = Inr [1, 2]
   \<and> getColumn 1 (snd (addColumns 0 1
        (snd (setColumn 1 (MultiPass [1, 2]) (snd (setColumn 0 (MultiPass [1, 1]) (setNumColumns 2 Vector_init)))))))
       = Inr [1, 2]"
  by code_simp

theorem addColumns_symmetric_difference_witness:
  "getColumn 1 (snd (addColumns 0 1
      (snd (setColumn 1 (MultiPass [2, 3]) (snd (setColumn 0 (MultiPass [1, 2]) (setNumColumns 2 Vector_init)))))))
     = Inr [1, 3]
   \<and> getColumn 0 (snd (addColumns 0 1
      (snd (setColumn 1 (MultiPass [2, 3]) (snd (setColumn 0 (MultiPass [1, 2]) (setNumColumns 2 Vector_init)))))))
     = Inr [1, 2]"
proof -
  let ?v = "snd (setColumn 1 (MultiPass [2, 3]) (snd (setColumn 0 (MultiPass [1, 2]) (setNumColumns 2 Vector_init))))"
  have i: "Vector_inv ?v"
    by (intro Vector_inv_setColumn Vector_inv_setNumColumns)
  have c: "0 < getNumColumns ?v" "1 < getNumColumns ?v" by code_simp+
  have g: "getColumn 0 ?v = Inr [1, 2]" "getColumn 1 ?v = Inr [2, 3]" by code_simp+
  have p: "sorted [1, 2 :: Index]" "distinct [1, 2 :: Index]"
    "sorted [2, 3 :: Index]" "distinct [2, 3 :: Index]" by code_simp+
  have e: "getColumn 1 (snd (addColumns 0 1 ?v)) = Inr [1, 3]" by code_simp
  show ?thesis
    using addColumns_symmetric_difference [OF i c g p] g(1) e by simp
qed

text \<open>
  Claim C9. For distinct in-range column indices \<open>source\<close> and \<open>target\<close> whose columns
  are sorted and free of duplicates, adding the source column to the target column twice
  restores the target column; the whole matrix is then as it was before.
\<close>

theorem addColumns_twice:
  assumes "Vector_inv v" "s < getNumColumns v" "t < getNumColumns v" "s \<noteq> t"
    and "getColumn s v = Inr A" "getColumn t v = Inr B"
    and "sorted A" "distinct A" "sorted B" "distinct B"
  shows "getColumn t (snd (addColumns s t (snd (addColumns s t v)))) = Inr B
    \<and> snd (addColumns s t (snd (addColumns s t v))) = v"
proof -
  have r: "unat s < length (m_data v)" "unat t < length (m_data v)"
    using assms(1-3) by (simp_all add: in_range_iff)
  have ne: "unat s \<noteq> unat t" using assms(4) by (simp add: word_unat_eq_iff)
  have A: "m_data v ! unat s = A" and B: "m_data v ! unat t = B"
    using assms(5,6) r by (simp_all add: getColumn_def vector_at_def)
  have st: "sorted_wrt (<) A" "sorted_wrt (<) B"
    using assms(7-10) by (simp_all add: strict_sorted_iff)
  let ?v1 = "v\<lparr>m_data := (m_data v)[unat t := set_symmetric_difference A B]\<rparr>"
  have e1: "snd (addColumns s t v) = ?v1"
    using addColumns_in_range [OF r] by (simp add: A B)
  have r1: "unat s < length (m_data ?v1)" "unat t < length (m_data ?v1)"
    using r by simp_all
  have "snd (addColumns s t ?v1) =
      ?v1\<lparr>m_data := (m_data ?v1)[unat t :=
         set_symmetric_difference A (set_symmetric_difference A B)]\<rparr>"
    using addColumns_in_range [OF r1] r ne A by simp
  also have "\<dots> = v\<lparr>m_data := (m_data v)[unat t := B]\<rparr>"
    using st by (simp add: ssd_involution)
  also have "\<dots> = v"
    using B by (metis list_update_id Vector.surjective Vector.update_convs(1))
  finally have restored: "snd (addColumns s t (snd (addColumns s t v))) = v"
    by (simp add: e1)
  show ?thesis using restored assms(6) by simp
qed

theorem addColumns_twice_witness:
  "getColumn 1 (snd (addColumns 0 1 (snd (addColumns 0 1
      (snd (setColumn 1 (MultiPass [2, 3]) (snd (setColumn 0 (MultiPass [1, 2]) (setNumColumns 2 Vector_init)))))))))
     = Inr [2, 3]"
proof -
  let ?v = "snd (setColumn 1 (MultiPass [2, 3]) (snd (setColumn 0 (MultiPass [1, 2]) (setNumColumns 2 Vector_init))))"
  have i: "Vector_inv ?v"
    by (intro Vector_inv_setColumn Vector_inv_setNumColumns)
  have c: "0 < getNumColumns ?v" "1 < getNumColumns ?v" "(0::Index) \<noteq> 1" by code_simp+
  have g: "getColumn 0 ?v = Inr [1, 2]" "getColumn 1 ?v = Inr [2, 3]" by code_simp+
  have p: "sorted [1, 2 :: Index]" "distinct [1, 2 :: Index]"
    "sorted [2, 3 :: Index]" "distinct [2, 3 :: Index]" by code_simp+
  show ?thesis
    using addColumns_twice [OF i c g p] by blast
qed

section \<open>Sizing the matrix\<close>

text \<open>
  Claim C3, as the code has it. After \<^verbatim>\<open>setNumColumns(n)\<close> the column count is
  \<open>n\<close>. A column with index below \<open>n\<close> that existed before the call keeps its entries
  and its dimension tag; a column with index below \<open>n\<close> that did not exist before is empty
  and has dimension tag zero. On a newly constructed matrix, therefore, all \<open>n\<close> columns
  are empty and all tags are zero.
\<close>

theorem setNumColumns_resize:
  assumes "Vector_inv v"
  shows "getNumColumns (setNumColumns n v) = n
    \<and> (\<forall>c. c < n \<longrightarrow>
          (if c < getNumColumns v
           then getColumn c (setNumColumns n v) = getColumn c v
              \<and> getDimension c (setNumColumns n v) = getDimension c v
           else getColumn c (setNumColumns n v) = Inr []
              \<and> getDimension c (setNumColumns n v) = Inr 0))
    \<and> (\<forall>c. c < n \<longrightarrow>
          getColumn c (setNumColumns n Vector_init) = Inr []
          \<and> getDimension c (setNumColumns n Vector_init) = Inr 0)"
proof -
  have count: "getNumColumns (setNumColumns n v) = n"
    by (simp add: getNumColumns_def setNumColumns_def length_resize)
  have old: "getColumn c (setNumColumns n v) = getColumn c v
      \<and> getDimension c (setNumColumns n v) = getDimension c v"
    if "c < n" "c < getNumColumns v" for c
  proof -
    have "unat c < unat n" using that(1) by (simp add: word_less_nat_alt)
    moreover have "unat c < length (m_data v)" "unat c < length (m_dimensions v)"
      using that(2) assms by (simp_all add: in_range_iff in_range_dimensions)
    ultimately show ?thesis
      by (simp add: getColumn_def getDimension_def setNumColumns_def vector_at_resize)
  qed
  have new: "getColumn c (setNumColumns n v) = Inr []
      \<and> getDimension c (setNumColumns n v) = Inr 0"
    if "c < n" "\<not> c < getNumColumns v" for c
  proof -
    have "unat c < unat n" using that(1) by (simp add: word_less_nat_alt)
    moreover have "\<not> unat c < length (m_data v)" "\<not> unat c < length (m_dimensions v)"
      using that(2) assms by (simp_all add: in_range_iff) (simp add: Vector_inv_def)
    ultimately show ?thesis
      by (simp add: getColumn_def getDimension_def setNumColumns_def vector_at_resize)
  qed
  have fresh: "getColumn c (setNumColumns n Vector_init) = Inr []
      \<and> getDimension c (setNumColumns n Vector_init) = Inr 0"
    if "c < n" for c
  proof -
    have "unat c < unat n" using that by (simp add: word_less_nat_alt)
    then show ?thesis
      by (simp add: getColumn_def getDimension_def setNumColumns_def vector_at_resize
          Vector_init_def)
  qed
  show ?thesis using count old new fresh by simp
qed

text \<open>
  The claim as stated promises empty columns and zero tags after a repeated call too.
  \<^verbatim>\<open>std::vector::resize\<close> keeps the elements it does not cut off: a column
  \<open>5, 7\<close> with dimension tag 1 survives a second \<^verbatim>\<open>setNumColumns(1)\<close>.
\<close>

theorem setNumColumns_counterexample:
  "getNumColumns (setNumColumns 1 (snd (setColumn 0 (MultiPass [5, 7]) (setNumColumns 1 Vector_init)))) = 1
   \<and> getColumn 0 (setNumColumns 1 (snd (setColumn 0 (MultiPass [5, 7]) (setNumColumns 1 Vector_init))))
       = Inr [5, 7]
   \<and> getDimension 0 (setNumColumns 1 (snd (setColumn 0 (MultiPass [5, 7]) (setNumColumns 1 Vector_init))))
       = Inr 1"
  by code_simp

theorem setNumColumns_resize_witness:
  "getNumColumns (setNumColumns 2 (snd (setColumn 0 (MultiPass [5, 7]) (setNumColumns 1 Vector_init)))) = 2
   \<and> getColumn 0 (setNumColumns 2 (snd (setColumn 0 (MultiPass [5, 7]) (setNumColumns 1 Vector_init))))
       = Inr [5, 7]
   \<and> getColumn 1 (setNumColumns 2 (snd (setColumn 0 (MultiPass [5, 7]) (setNumColumns 1 Vector_init))))
       = Inr []
   \<and> getDimension 1 (setNumColumns 2 (snd (setColumn 0 (MultiPass [5, 7]) (setNumColumns 1 Vector_init))))
       = Inr 0"
proof -
  let ?v = "snd (setColumn 0 (MultiPass [5, 7]) (setNumColumns 1 Vector_init))"
  have i: "Vector_inv ?v"
    by (intro Vector_inv_setColumn Vector_inv_setNumColumns)
  have c: "(0::Index) < 2" "(1::Index) < 2" "0 < getNumColumns ?v" "\<not> 1 < getNumColumns ?v"
    by code_simp+
  have g: "getColumn 0 ?v = Inr [5, 7]" by code_simp
  have all: "\<forall>c. c < 2 \<longrightarrow>
          (if c < getNumColumns ?v
           then getColumn c (setNumColumns 2 ?v) = getColumn c ?v
              \<and> getDimension c (setNumColumns 2 ?v) = getDimension c ?v
           else getColumn c (setNumColumns 2 ?v) = Inr []
              \<and> getDimension c (setNumColumns 2 ?v) = Inr 0)"
    and n: "getNumColumns (setNumColumns 2 ?v) = 2"
    using setNumColumns_resize [OF i, of 2] by blast+
  have "getColumn 0 (setNumColumns 2 ?v) = getColumn 0 ?v"
    using all c(1,3) by presburger
  moreover have "getColumn 1 (setNumColumns 2 ?v) = Inr []
      \<and> getDimension 1 (setNumColumns 2 ?v) = Inr 0"
    using all c(2,4) by presburger
  ultimately show ?thesis using n g by simp
qed

section \<open>Clearing a column\<close>

text \<open>
  Claim C10. For every in-range column index \<open>c\<close>, \<^verbatim>\<open>clearColumn(c)\<close> succeeds and
  empties column \<open>c\<close>; \<^verbatim>\<open>getDimension(c)\<close> returns the same value as before, and
  every other column, every dimension tag and the dualization flag are unchanged.
\<close>

theorem clearColumn_frame:
  assumes "Vector_inv v" "c < getNumColumns v"
  shows "fst (clearColumn c v) = Inr ()
    \<and> getColumn c (snd (clearColumn c v)) = Inr []
    \<and> getDimension c (snd (clearColumn c v)) = getDimension c v
    \<and> (\<forall>c'. c' \<noteq> c \<longrightarrow> getColumn c' (snd (clearColumn c v)) = getColumn c' v)
    \<and> m_dimensions (snd (clearColumn c v)) = m_dimensions v
    \<and> isDualized (snd (clearColumn c v)) = isDualized v"
proof -
  have r: "unat c < length (m_data v)"
    using assms by (simp add: in_range_iff)
  have s: "snd (clearColumn c v) = v\<lparr>m_data := (m_data v)[unat c := []]\<rparr>"
    and ok: "fst (clearColumn c v) = Inr ()"
    using r by (simp_all add: clearColumn_def vector_at_def)
  have other: "getColumn c' (snd (clearColumn c v)) = getColumn c' v" if "c' \<noteq> c" for c'
  proof -
    have "unat c' \<noteq> unat c" using that by (simp add: word_unat_eq_iff)
    then show ?thesis by (simp add: s getColumn_def vector_at_def)
  qed
  show ?thesis
    using r ok other by (simp add: s getColumn_def getDimension_def vector_at_def isDualized_def)
qed

theorem clearColumn_frame_witness:
  "getColumn 0 (snd (clearColumn 0 (snd (setColumn 0 (MultiPass [3, 1, 3]) (setNumColumns 2 Vector_init)))))
     = Inr []
   \<and> getDimension 0 (snd (clearColumn 0 (snd (setColumn 0 (MultiPass [3, 1, 3]) (setNumColumns 2 Vector_init)))))
     = Inr 2"
proof -
  let ?v = "snd (setColumn 0 (MultiPass [3, 1, 3]) (setNumColumns 2 Vector_init))"
  have i: "Vector_inv ?v"
    by (intro Vector_inv_setColumn Vector_inv_setNumColumns)
  have c: "0 < getNumColumns ?v" by code_simp
  have d: "getDimension 0 ?v = Inr 2" by code_simp
  show ?thesis
    using clearColumn_frame [OF i c] d by simp
qed

section \<open>Out-of-range column indices\<close>

text \<open>
  Claim C7. Each member function that takes a column index signals
  \<^verbatim>\<open>std::out_of_range\<close> when the index is greater than or equal to the column count,
  and the state it leaves behind is the state it was called on. For \<^verbatim>\<open>addColumns\<close>
  this holds for an out-of-range source with any target and for an out-of-range target
  with any source. The three queries are \<^verbatim>\<open>const\<close> and have no state to return.
\<close>

theorem out_of_range_signalled:
  assumes "Vector_inv v" "getNumColumns v \<le> c"
  shows "getMaximumIndex c v = Inl OutOfRange
    \<and> addColumns c t v = (Inl OutOfRange, v)
    \<and> addColumns s c v = (Inl OutOfRange, v)
    \<and> setColumn c r v = (Inl OutOfRange, v)
    \<and> getColumn c v = Inl OutOfRange
    \<and> clearColumn c v = (Inl OutOfRange, v)
    \<and> getDimension c v = Inl OutOfRange"
proof -
  have r: "\<not> unat c < length (m_data v)" "\<not> unat c < length (m_dimensions v)"
    using assms by (simp_all add: out_of_range_iff Vector_inv_def)
  have "addColumns s c v = (Inl OutOfRange, v)"
    using r by (simp add: addColumns_def vector_at_def)
  then show ?thesis
    using r
    by (simp add: getMaximumIndex_def addColumns_def setColumn_def getColumn_def
        clearColumn_def getDimension_def vector_at_def)
qed

theorem out_of_range_signalled_witness:
  "getNumColumns (setNumColumns 2 Vector_init) \<le> 2
   \<and> getMaximumIndex 2 (setNumColumns 2 Vector_init) = Inl OutOfRange
   \<and> addColumns 0 2 (setNumColumns 2 Vector_init) = (Inl OutOfRange, setNumColumns 2 Vector_init)
   \<and> setColumn 2 (MultiPass [0]) (setNumColumns 2 Vector_init) = (Inl OutOfRange, setNumColumns 2 Vector_init)"
proof -
  let ?v = "setNumColumns 2 Vector_init"
  have i: "Vector_inv ?v" by (rule Vector_inv_setNumColumns)
  have c: "getNumColumns ?v \<le> 2" by code_simp
  show ?thesis
    using c out_of_range_signalled [OF i c, of _ 0 "MultiPass [0]"] by simp
qed

section \<open>The dualization flag\<close>

text \<open>
  Claim C8. A newly constructed matrix is not dualized; after \<^verbatim>\<open>setDualized(b)\<close>
  the query \<^verbatim>\<open>isDualized()\<close> returns \<open>b\<close>; and \<^verbatim>\<open>setDualized\<close> leaves
  every stored column and every dimension tag as it was.
\<close>

theorem setDualized_only_flag:
  "isDualized Vector_init = False
   \<and> isDualized (setDualized b v) = b
   \<and> m_data (setDualized b v) = m_data v
   \<and> m_dimensions (setDualized b v) = m_dimensions v"
  by (simp add: isDualized_def setDualized_def Vector_init_def)

section \<open>Determinism of the reduction\<close>

lemma samePivot_iff:
  "samePivot v k j \<longleftrightarrow>
   (\<exists>p. getMaximumIndex (of_nat k) v = Inr (p, True)
      \<and> getMaximumIndex (of_nat j) v = Inr (p, True))"
  by (auto simp: samePivot_def split: sum.splits prod.splits bool.splits)

lemma samePivot_common:
  "samePivot v k1 j \<Longrightarrow> samePivot v k2 j \<Longrightarrow> samePivot v k1 k2"
  by (auto simp: samePivot_iff)

lemma pivotCandidates_set:
  "set (pivotCandidates v j) = {k. k < j \<and> samePivot v k j}"
  by (auto simp: pivotCandidates_def)

lemma pivotCandidates_distinct: "distinct (pivotCandidates v j)"
  by (simp add: pivotCandidates_def)

text \<open>
  Once the columns before \<open>j\<close> are reduced, at most one of them shares the pivot of
  column \<open>j\<close>, so two tie-breaking rules select the same column.
\<close>

lemma pivotCandidates_at_most_one:
  assumes "reducedPrefix v j"
  shows "pivotCandidates v j = [] \<or> (\<exists>k. pivotCandidates v j = [k])"
proof (cases "pivotCandidates v j")
  case Nil
  then show ?thesis by simp
next
  case (Cons k ks)
  have same: "a = b" if "a \<in> set (pivotCandidates v j)" "b \<in> set (pivotCandidates v j)" for a b
  proof -
    have "a < j" "b < j" "samePivot v a b"
      using that samePivot_common [of v a j b] by (simp_all add: pivotCandidates_set)
    then show ?thesis using assms by (simp add: reducedPrefix_def)
  qed
  have "ks = []"
  proof (rule ccontr)
    assume "ks \<noteq> []"
    then obtain k' ks' where ks: "ks = k' # ks'" by (cases ks) auto
    have "k' = k" using same [of k' k] Cons ks by simp
    moreover have "k' \<noteq> k" using pivotCandidates_distinct [of v j] Cons ks by auto
    ultimately show False by simp
  qed
  then show ?thesis using Cons by simp
qed

lemma picks_agree:
  assumes "reducedPrefix v j" "validChoice p1" "validChoice p2" "pivotCandidates v j \<noteq> []"
  shows "p1 v j (pivotCandidates v j) = p2 v j (pivotCandidates v j)"
proof -
  obtain k where k: "pivotCandidates v j = [k]"
    using pivotCandidates_at_most_one [OF assms(1)] assms(4) by blast
  have "p1 v j [k] \<in> set [k]" "p2 v j [k] \<in> set [k]"
    using assms(2,3) unfolding validChoice_def by blast+
  then show ?thesis by (simp add: k)
qed

lemma addColumns_getMaximumIndex_other:
  "unat c \<noteq> unat t \<Longrightarrow> getMaximumIndex c (snd (addColumns s t v)) = getMaximumIndex c v"
  by (simp add: addColumns_def getMaximumIndex_def vector_at_def)

lemma reducedPrefix_addColumns:
  assumes "Vector_inv v" "j < length (m_data v)" "reducedPrefix v j"
  shows "reducedPrefix (snd (addColumns s (of_nat j) v)) j"
proof -
  have j: "j < 2 ^ 32" using assms(1,2) by (simp add: Vector_inv_def)
  have keep: "getMaximumIndex (of_nat k) (snd (addColumns s (of_nat j) v))
      = getMaximumIndex (of_nat k) v" if "k < j" for k
  proof -
    have "k < 2 ^ 32" using that j by simp
    then have "unat (of_nat k :: Index) \<noteq> unat (of_nat j :: Index)"
      using that j by (simp add: unat_of_nat_Index)
    then show ?thesis by (rule addColumns_getMaximumIndex_other)
  qed
  show ?thesis
    using assms(3) by (simp add: reducedPrefix_def samePivot_iff keep)
qed

lemma reducedPrefix_Suc:
  assumes "reducedPrefix v j" "pivotCandidates v j = []"
  shows "reducedPrefix v (Suc j)"
proof -
  have none: "\<not> samePivot v k j" if "k < j" for k
    using assms(2) that pivotCandidates_set [of v j] by auto
  have sym: "samePivot v a b \<Longrightarrow> samePivot v b a" for a b
    by (auto simp: samePivot_iff)
  show ?thesis
    unfolding reducedPrefix_def
  proof (intro allI impI)
    fix k1 k2 assume k: "k1 < Suc j" "k2 < Suc j" and s: "samePivot v k1 k2"
    show "k1 = k2"
    proof (cases "k1 = j")
      case True
      then show ?thesis using k s none [of k2] sym [of k1 k2] by (cases "k2 = j") auto
    next
      case False
      then have k1: "k1 < j" using k by simp
      show ?thesis
      proof (cases "k2 = j")
        case True
        then show ?thesis using none [OF k1] s by simp
      next
        case False
        then have "k2 < j" using k by simp
        then show ?thesis using k1 s assms(1) by (simp add: reducedPrefix_def)
      qed
    qed
  qed
qed

lemma reducedPrefix_0: "reducedPrefix v 0"
  by (simp add: reducedPrefix_def)

lemma reduceColumn_agree:
  assumes "reduceColumn p1 j v = Some r"
  shows "validChoice p1 \<Longrightarrow> validChoice p2 \<Longrightarrow> Vector_inv v \<Longrightarrow> j < length (m_data v) \<Longrightarrow>
    reducedPrefix v j \<Longrightarrow> reduceColumn p2 j v = Some r"
  using assms
proof (induction p1 j v r rule: reduceColumn.raw_induct [rotated 1, consumes 1, case_names step])
  case (step f p1 j v r)
  show ?case
  proof (cases "pivotCandidates v j = []")
    case True
    then show ?thesis using step(2) by (simp add: reduceColumn.simps)
  next
    case False
    have pk: "p1 v j (pivotCandidates v j) = p2 v j (pivotCandidates v j)"
      using picks_agree [OF step(7) step(3) step(4) False] .
    let ?k = "p2 v j (pivotCandidates v j)"
    obtain res v' where a: "addColumns (of_nat ?k) (of_nat j) v = (res, v')"
      by (cases "addColumns (of_nat ?k) (of_nat j) v") simp
    have v': "v' = snd (addColumns (of_nat ?k) (of_nat j) v)" using a by simp
    show ?thesis
    proof (cases res)
      case (Inl e)
      then show ?thesis using step(2) False a pk
        by (subst reduceColumn.simps) simp
    next
      case (Inr u)
      then have "f p1 j v' = Some r" using step(2) False a pk by simp
      moreover have "Vector_inv v'" using step(5) by (simp add: v' Vector_inv_addColumns)
      moreover have "j < length (m_data v')" using step(6) by (simp add: v' addColumns_length)
      moreover have "reducedPrefix v' j"
        using reducedPrefix_addColumns [OF step(5) step(6) step(7)] by (simp add: v')
      ultimately have "reduceColumn p2 j v' = Some r"
        using step(1) step(3) step(4) by blast
      then show ?thesis using False a Inr
        by (subst reduceColumn.simps) simp
    qed
  qed
qed

lemma reduceColumn_deterministic:
  assumes "validChoice p1" "validChoice p2" "Vector_inv v" "j < length (m_data v)"
    "reducedPrefix v j"
  shows "reduceColumn p1 j v = reduceColumn p2 j v"
proof (cases "reduceColumn p1 j v")
  case None
  show ?thesis
  proof (cases "reduceColumn p2 j v")
    case None
    then show ?thesis using \<open>reduceColumn p1 j v = None\<close> by simp
  next
    case (Some r)
    then have "reduceColumn p1 j v = Some r"
      using assms(2,1,3,4,5) by (rule reduceColumn_agree)
    then show ?thesis using None by simp
  qed
next
  case (Some r)
  then have "reduceColumn p2 j v = Some r"
    using assms by (rule reduceColumn_agree)
  then show ?thesis using Some by simp
qed

lemma reduceColumn_post:
  assumes "reduceColumn p j v = Some r"
  shows "r = Inr v' \<Longrightarrow> Vector_inv v \<Longrightarrow> j < length (m_data v) \<Longrightarrow> reducedPrefix v j \<Longrightarrow>
    Vector_inv v' \<and> length (m_data v') = length (m_data v) \<and> reducedPrefix v' (Suc j)"
  using assms
proof (induction p j v r rule: reduceColumn.raw_induct [rotated 1, consumes 1, case_names step])
  case (step f p j v r)
  show ?case
  proof (cases "pivotCandidates v j = []")
    case True
    then have "v' = v" using step(2,3) by simp
    then show ?thesis using step(4,6) True by (simp add: reducedPrefix_Suc)
  next
    case False
    let ?k = "p v j (pivotCandidates v j)"
    obtain res u where a: "addColumns (of_nat ?k) (of_nat j) v = (res, u)"
      by (cases "addColumns (of_nat ?k) (of_nat j) v") simp
    have u: "u = snd (addColumns (of_nat ?k) (of_nat j) v)" using a by simp
    show ?thesis
    proof (cases res)
      case (Inl e)
      then show ?thesis using step(2,3) False a by simp
    next
      case (Inr x)
      then have "f p j u = Some r" using step(2) False a by simp
      moreover have "Vector_inv u" using step(4) by (simp add: u Vector_inv_addColumns)
      moreover have len: "length (m_data u) = length (m_data v)"
        by (simp add: u addColumns_length)
      moreover have "reducedPrefix u j"
        using reducedPrefix_addColumns [OF step(4) step(5) step(6)] by (simp add: u)
      ultimately have "Vector_inv v' \<and> length (m_data v') = length (m_data u)
          \<and> reducedPrefix v' (Suc j)"
        using step(1) [of p j u r] step(3) step(5) by simp
      then show ?thesis using len by simp
    qed
  qed
qed

lemma sweep_deterministic:
  assumes "validChoice p1" "validChoice p2"
  shows "Vector_inv v \<Longrightarrow> length (m_data v) = N \<Longrightarrow> reducedPrefix v j \<Longrightarrow>
    sweep p1 [j..<N] v = sweep p2 [j..<N] v"
proof (induction "N - j" arbitrary: j v)
  case 0
  then show ?case by simp
next
  case (Suc d)
  then have j: "j < N" by simp
  have up: "[j..<N] = j # [Suc j..<N]" using j by (rule upt_conv_Cons)
  have jl: "j < length (m_data v)" using j Suc.prems(2) by simp
  have eq: "reduceColumn p1 j v = reduceColumn p2 j v"
    using assms Suc.prems(1) jl Suc.prems(3) by (rule reduceColumn_deterministic)
  show ?case
  proof (cases "reduceColumn p2 j v")
    case None
    then show ?thesis by (simp add: up eq)
  next
    case (Some r)
    show ?thesis
    proof (cases r)
      case (Inl e)
      then show ?thesis using Some by (simp add: up eq)
    next
      case (Inr v')
      have post: "Vector_inv v' \<and> length (m_data v') = length (m_data v)
          \<and> reducedPrefix v' (Suc j)"
        using reduceColumn_post [OF Some Inr Suc.prems(1) jl Suc.prems(3)] .
      have "d = N - Suc j" using Suc.hyps(2) by simp
      then have "sweep p1 [Suc j..<N] v' = sweep p2 [Suc j..<N] v'"
        using Suc.hyps(1) [of "Suc j" v'] post Suc.prems(2) by simp
      then show ?thesis using Some Inr by (simp add: up eq)
    qed
  qed
qed

lemma validChoice_hd: "validChoice (\<lambda>v j. hd)"
  by (simp add: validChoice_def)

lemma validChoice_last: "validChoice (\<lambda>v j. last)"
  by (simp add: validChoice_def)

text \<open>
  On a matrix whose columns are sorted and free of duplicates each addition lowers the
  pivot of the column under reduction, so the reduction returns, and without an error.
  Columns with duplicates, which \<^verbatim>\<open>setColumn\<close> can store, give no such bound.
\<close>

lemma samePivot_columns:
  assumes "Vector_inv v" "j < length (m_data v)" "k < j" "samePivot v k j"
  shows "m_data v ! k \<noteq> [] \<and> m_data v ! j \<noteq> []
    \<and> last (m_data v ! k) = last (m_data v ! j)
    \<and> unat (of_nat k :: Index) = k \<and> unat (of_nat j :: Index) = j"
proof -
  have j: "j < 2 ^ 32" and k: "k < 2 ^ 32" using assms(1,2,3) by (simp_all add: Vector_inv_def)
  have u: "unat (of_nat k :: Index) = k" "unat (of_nat j :: Index) = j"
    using j k by (simp_all add: unat_of_nat_Index)
  obtain q where "getMaximumIndex (of_nat k) v = Inr (q, True)"
      "getMaximumIndex (of_nat j) v = Inr (q, True)"
    using assms(4) by (auto simp: samePivot_iff)
  then show ?thesis
    using u assms(2,3)
    by (auto simp: getMaximumIndex_def vector_at_def split: if_splits)
qed

lemma reduceColumn_terminates:
  assumes "validChoice p"
  shows "Vector_inv v \<Longrightarrow> j < length (m_data v) \<Longrightarrow> strictColumns v \<Longrightarrow>
    \<exists>v'. reduceColumn p j v = Some (Inr v') \<and> strictColumns v'"
proof (induction "pivotMeasure v j" arbitrary: v rule: less_induct)
  case less
  show ?case
  proof (cases "pivotCandidates v j = []")
    case True
    then show ?thesis using less.prems(3) by (subst reduceColumn.simps) simp
  next
    case False
    let ?k = "p v j (pivotCandidates v j)"
    have "?k \<in> set (pivotCandidates v j)"
      using assms False unfolding validChoice_def by blast
    then have kj: "?k < j" and sp: "samePivot v ?k j"
      by (simp_all add: pivotCandidates_set)
    let ?A = "m_data v ! ?k" and ?B = "m_data v ! j"
    have cols: "?A \<noteq> []" "?B \<noteq> []" "last ?A = last ?B"
      and u: "unat (of_nat ?k :: Index) = ?k" "unat (of_nat j :: Index) = j"
      using samePivot_columns [OF less.prems(1,2) kj sp] by simp_all
    have kl: "?k < length (m_data v)" using kj less.prems(2) by simp
    have "?A \<in> set (m_data v)" "?B \<in> set (m_data v)"
      using kl less.prems(2) by simp_all
    then have st: "sorted_wrt (<) ?A" "sorted_wrt (<) ?B"
      using less.prems(3) by (simp_all add: strictColumns_def strict_sorted_iff)
    let ?C = "set_symmetric_difference ?A ?B"
    let ?v' = "v\<lparr>m_data := (m_data v)[j := ?C]\<rparr>"
    have a: "addColumns (of_nat ?k) (of_nat j) v = (Inr (), ?v')"
      using addColumns_in_range [of "of_nat ?k" v "of_nat j"] kl less.prems(2)
      by (simp add: u)
    have C: "sorted_wrt (<) ?C" using st by (rule ssd_strict_sorted)
    have dec: "pivotMeasure ?v' j < pivotMeasure v j"
    proof (cases "?C = []")
      case True
      then show ?thesis using cols(2) less.prems(2) by (simp add: pivotMeasure_def)
    next
      case False
      have "last ?C < last ?B"
        using st cols False by (rule ssd_common_last)
      then show ?thesis
        using False cols(2) less.prems(2) by (simp add: pivotMeasure_def word_less_nat_alt)
    qed
    have inv': "Vector_inv ?v'" using less.prems(1) by (simp add: Vector_inv_def)
    have len': "j < length (m_data ?v')" using less.prems(2) by simp
    have "set ((m_data v)[j := ?C]) \<subseteq> insert ?C (set (m_data v))"
      by (rule set_update_subset_insert)
    then have strict': "strictColumns ?v'"
      using less.prems(3) C by (auto simp: strictColumns_def strict_sorted_iff)
    obtain v'' where "reduceColumn p j ?v' = Some (Inr v'')" "strictColumns v''"
      using less.hyps [OF dec inv' len' strict'] by blast
    then show ?thesis using False a
      by (subst reduceColumn.simps) simp
  qed
qed

lemma sweep_terminates:
  assumes "validChoice p"
  shows "Vector_inv v \<Longrightarrow> length (m_data v) = N \<Longrightarrow> reducedPrefix v j \<Longrightarrow> strictColumns v \<Longrightarrow>
    \<exists>v'. sweep p [j..<N] v = Some (Inr v')"
proof (induction "N - j" arbitrary: j v)
  case 0
  then show ?case by simp
next
  case (Suc d)
  then have j: "j < N" by simp
  have up: "[j..<N] = j # [Suc j..<N]" using j by (rule upt_conv_Cons)
  have jl: "j < length (m_data v)" using j Suc.prems(2) by simp
  obtain u where r: "reduceColumn p j v = Some (Inr u)" and su: "strictColumns u"
    using reduceColumn_terminates [OF assms Suc.prems(1) jl Suc.prems(4)] by blast
  have post: "Vector_inv u \<and> length (m_data u) = length (m_data v) \<and> reducedPrefix u (Suc j)"
    using reduceColumn_post [OF r refl Suc.prems(1) jl Suc.prems(3)] .
  have "d = N - Suc j" using Suc.hyps(2) by simp
  then obtain v' where "sweep p [Suc j..<N] u = Some (Inr v')"
    using Suc.hyps(1) [of "Suc j" u] post Suc.prems(2) su by auto
  then show ?case using r by (simp add: up)
qed

lemma reduce_terminates:
  assumes "validChoice p" "Vector_inv v" "strictColumns v"
  shows "\<exists>v'. reduce p v = Some (Inr v')"
  using sweep_terminates [OF assms(1,2) refl reducedPrefix_0 assms(3)] assms(2)
  by (simp add: reduce_def unat_getNumColumns)

text \<open>
  Claim C6. The reduction of a given boundary matrix does not depend on tie-breaking: two
  runs of the left-to-right sweep that select elimination partners by any two rules end
  in the same way, with the same reduced matrix and the same list of persistence pairs,
  with the same error, or both without end.
\<close>

theorem reduction_deterministic:
  assumes "Vector_inv v" "validChoice p1" "validChoice p2"
  shows "reduce p1 v = reduce p2 v \<and> persistencePairs p1 v = persistencePairs p2 v"
proof -
  have "sweep p1 [0..<length (m_data v)] v = sweep p2 [0..<length (m_data v)] v"
    using assms(2,3,1) refl reducedPrefix_0 by (rule sweep_deterministic)
  then have "reduce p1 v = reduce p2 v"
    using assms(1) by (simp add: reduce_def unat_getNumColumns)
  then show ?thesis by (simp add: persistencePairs_def)
qed

theorem reduction_deterministic_witness:
  "persistencePairs (\<lambda>v j. hd) triangle = Some (Inr [(1, 3, 0), (2, 4, 0), (5, 6, 1)])
   \<and> persistencePairs (\<lambda>v j. last) triangle = Some (Inr [(1, 3, 0), (2, 4, 0), (5, 6, 1)])"
proof -
  have i: "Vector_inv triangle"
    unfolding triangle_def by (intro Vector_inv_setColumn Vector_inv_setNumColumns)
  have e: "persistencePairs (\<lambda>v j. hd) triangle = Some (Inr [(1, 3, 0), (2, 4, 0), (5, 6, 1)])"
    by code_simp
  show ?thesis
    using reduction_deterministic [OF i validChoice_hd validChoice_last] e by simp
qed

end
